theory Spec2Isabelle
  imports Complex_Main
begin

section \<open>Numbers, ranges and rounding\<close>

text \<open>
  JavaScript numbers are modelled as real numbers: every equation of the model is
  exact, where the program computes in binary floating point. The model follows the
  program as it runs with assertions enabled (\<^verbatim>\<open>assert && assert( ... )\<close>), so a failed
  assertion is an outcome of its own; with the assertions passing, every spring constant
  is positive and no division by zero occurs.

  \<^verbatim>\<open>Math.round\<close> rounds to the nearest integer, a tie going towards plus infinity.
\<close>

definition Math_round :: "real \<Rightarrow> real" where
  "Math_round x = of_int \<lfloor>x + 1 / 2\<rfloor>"

text \<open>
  \<^verbatim>\<open>DOT/Range\<close> and \<^verbatim>\<open>DOT/RangeWithValue\<close> (a library outside this repository): a
  minimum, a maximum and a default value, the minimum when none is given.
  \<^verbatim>\<open>contains\<close> is the closed interval, \<^verbatim>\<open>constrainValue\<close> is
  \<^verbatim>\<open>Math.min( Math.max( value, min ), max )\<close>.
\<close>

record range =
  rmin :: real
  rmax :: real
  defaultValue :: real

definition RangeWithValue :: "real \<Rightarrow> real \<Rightarrow> real \<Rightarrow> range" where
  "RangeWithValue lo hi d = \<lparr>rmin = lo, rmax = hi, defaultValue = d\<rparr>"

definition Range2 :: "real \<Rightarrow> real \<Rightarrow> range" where
  "Range2 lo hi = \<lparr>rmin = lo, rmax = hi, defaultValue = lo\<rparr>"

definition contains :: "range \<Rightarrow> real \<Rightarrow> bool" where
  "contains r v \<longleftrightarrow> rmin r \<le> v \<and> v \<le> rmax r"

definition constrainValue :: "range \<Rightarrow> real \<Rightarrow> real" where
  "constrainValue r v = min (max v (rmin r)) (rmax r)"

section \<open>Cells, listeners and the state of a model\<close>

text \<open>
  A model owns springs and one robotic arm: the single spring of a standalone
  \<^verbatim>\<open>Spring\<close>, or the left, right and equivalent springs of a \<^verbatim>\<open>SeriesSystem\<close>. Each spring has four primary cells and the derived
  cells of \<^verbatim>\<open>Spring\<close>; \<^verbatim>\<open>rightRangeProperty\<close> holds a range and is kept apart.
\<close>

datatype spring_id = SingleSpring | LeftSpring | RightSpring | EquivalentSpring

datatype field =
  AppliedForce | SpringConstant | Displacement | Left
  | SpringForce | EquilibriumX | Right | Length | Energy

datatype cell = SpringCell spring_id field | ArmLeft

text \<open>
  The listeners the program registers, in the program's words: the derivations of the
  derived cells, the three observers of \<^verbatim>\<open>Spring\<close>, and the links and guards of
  \<^verbatim>\<open>SeriesSystem\<close>.
\<close>

datatype listener =
  DeriveSpringForce spring_id
  | DeriveEquilibriumX spring_id
  | DeriveRight spring_id
  | DeriveRightRange spring_id
  | DeriveLength spring_id
  | DeriveEnergy spring_id
  | AppliedForceObserver spring_id
  | SpringConstantObserver spring_id
  | DisplacementObserver spring_id
  | EquivalentForceLink
  | UpdateEquivalentSpringConstant
  | ArmLink
  | LeftSpringRightLink
  | RightSpringRightLink
  | LeftSpringLeftGuard
  | EquivalentLeftGuard
  | EquivalentEquilibriumXGuard

datatype error = AssertionError | InvalidValueError | ReadOnlyError | ThrownError

record spring_conf =
  equilibriumLength :: real
  springConstantRange :: range
  appliedForceDelta :: real
  appliedForceRange :: range
  displacementRange :: range
  forceDriven :: bool

text \<open>
  \<open>val\<close> is the current value of every cell, \<open>subs\<close> its listeners in subscription
  order, \<open>initialValue\<close> the value a cell was created with. \<open>ignoreUpdates\<close> is the
  flag of \<^verbatim>\<open>SeriesSystem\<close>. \<open>changes\<close> is an instrument, not a part of the program: it
  records, in order, every cell whose value changed and so notified its listeners.
\<close>

record system =
  conf :: "spring_id \<Rightarrow> spring_conf"
  val :: "cell \<Rightarrow> real"
  rightRange :: "spring_id \<Rightarrow> real \<times> real"
  subs :: "cell \<Rightarrow> listener list"
  initialValue :: "cell \<Rightarrow> real"
  armRight :: real
  ignoreUpdates :: bool
  changes :: "cell list"

text \<open>
  A call either returns, or raises with the state as the raise left it (nothing in the
  program catches or rolls back), or does not return within the given depth of nested
  calls.
\<close>

datatype outcome = Done system | Raised error system | OutOfFuel

definition andThen :: "outcome \<Rightarrow> (system \<Rightarrow> outcome) \<Rightarrow> outcome" where
  "andThen r f = (case r of Done s \<Rightarrow> f s | Raised e s \<Rightarrow> Raised e s | OutOfFuel \<Rightarrow> OutOfFuel)"

fun sequence :: "(system \<Rightarrow> outcome) list \<Rightarrow> system \<Rightarrow> outcome" where
  "sequence [] s = Done s"
| "sequence (f # fs) s = andThen (f s) (sequence fs)"

abbreviation F :: "spring_id \<Rightarrow> cell" where "F sp \<equiv> SpringCell sp AppliedForce"
abbreviation K :: "spring_id \<Rightarrow> cell" where "K sp \<equiv> SpringCell sp SpringConstant"
abbreviation X :: "spring_id \<Rightarrow> cell" where "X sp \<equiv> SpringCell sp Displacement"

definition put :: "cell \<Rightarrow> real \<Rightarrow> system \<Rightarrow> system" where
  "put c v s = s\<lparr>val := (val s)(c := v), changes := changes s @ [c]\<rparr>"

section \<open>The listeners\<close>

text \<open>
  Each listener is given the function that sets a cell (so that a listener's write
  notifies in turn), the value of the notification, and the state. A derivation reads
  the current values of its dependencies.
\<close>

definition rightRangeOf :: "spring_id \<Rightarrow> system \<Rightarrow> real \<times> real" where
  "rightRangeOf sp s =
     (let c = conf s sp; equilibriumX = val s (SpringCell sp EquilibriumX) in
      if forceDriven c then
        (let minDisplacement = rmin (appliedForceRange c) / val s (K sp);
             maxDisplacement = rmax (appliedForceRange c) / val s (K sp)
         in (equilibriumX + minDisplacement, equilibriumX + maxDisplacement))
      else (equilibriumX + rmin (displacementRange c), equilibriumX + rmax (displacementRange c)))"

fun run_listener ::
  "(cell \<Rightarrow> real \<Rightarrow> system \<Rightarrow> outcome) \<Rightarrow> listener \<Rightarrow> real \<Rightarrow> system \<Rightarrow> outcome" where
  "run_listener setf (DeriveSpringForce sp) v s =
     setf (SpringCell sp SpringForce) (- val s (F sp)) s"
| "run_listener setf (DeriveEquilibriumX sp) v s =
     setf (SpringCell sp EquilibriumX)
       (val s (SpringCell sp Left) + equilibriumLength (conf s sp)) s"
| "run_listener setf (DeriveRight sp) v s =
     (let left = val s (SpringCell sp Left);
          right = val s (SpringCell sp EquilibriumX) + val s (X sp)
      in if right - left > 0 then setf (SpringCell sp Right) right s
         else Raised AssertionError s)"
| "run_listener setf (DeriveRightRange sp) v s =
     Done (s\<lparr>rightRange := (rightRange s)(sp := rightRangeOf sp s)\<rparr>)"
| "run_listener setf (DeriveLength sp) v s =
     setf (SpringCell sp Length)
       \<bar>val s (SpringCell sp Right) - val s (SpringCell sp Left)\<bar> s"
| "run_listener setf (DeriveEnergy sp) v s =
     setf (SpringCell sp Energy) (val s (K sp) * val s (X sp) * val s (X sp) / 2) s"
| "run_listener setf (AppliedForceObserver sp) appliedForce s =
     (if contains (appliedForceRange (conf s sp)) appliedForce
      then setf (X sp) (appliedForce / val s (K sp)) s
      else Raised AssertionError s)"
| "run_listener setf (SpringConstantObserver sp) springConstant s =
     (if contains (springConstantRange (conf s sp)) springConstant
      then (if forceDriven (conf s sp)
            then setf (X sp) (val s (F sp) / springConstant) s
            else setf (F sp) (springConstant * val s (X sp)) s)
      else Raised AssertionError s)"
| "run_listener setf (DisplacementObserver sp) displacement s =
     (if contains (displacementRange (conf s sp)) displacement
      then (let appliedForce = val s (K sp) * displacement;
                appliedForce' =
                  (if forceDriven (conf s sp)
                   then Math_round (appliedForce / appliedForceDelta (conf s sp))
                          * appliedForceDelta (conf s sp)
                   else appliedForce)
            in setf (F sp) (constrainValue (appliedForceRange (conf s sp)) appliedForce') s)
      else Raised AssertionError s)"
| "run_listener setf EquivalentForceLink appliedForce s =
     andThen (setf (F LeftSpring) appliedForce s) (setf (F RightSpring) appliedForce)"
| "run_listener setf UpdateEquivalentSpringConstant v s =
     (let leftSpringConstant = val s (K LeftSpring);
          rightSpringConstant = val s (K RightSpring)
      in setf (K EquivalentSpring) (1 / (1 / leftSpringConstant + 1 / rightSpringConstant)) s)"
| "run_listener setf ArmLink left s =
     (if \<not> ignoreUpdates s
      then andThen
             (setf (X EquivalentSpring)
                (left - val s (SpringCell EquivalentSpring EquilibriumX))
                (s\<lparr>ignoreUpdates := True\<rparr>))
             (\<lambda>s'. Done (s'\<lparr>ignoreUpdates := False\<rparr>))
      else Done s)"
| "run_listener setf LeftSpringRightLink right s = setf (SpringCell RightSpring Left) right s"
| "run_listener setf RightSpringRightLink right s = setf ArmLeft right s"
| "run_listener setf LeftSpringLeftGuard v s = Raised ThrownError s"
| "run_listener setf EquivalentLeftGuard v s = Raised ThrownError s"
| "run_listener setf EquivalentEquilibriumXGuard v s = Raised ThrownError s"

section \<open>The observable cell\<close>

text \<open>
  Modelled from the spec: \<^verbatim>\<open>AXON/Property\<close>, \<^verbatim>\<open>AXON/NumberProperty\<close> and
  \<^verbatim>\<open>AXON/DerivedProperty\<close> are a library outside this repository. \<^verbatim>\<open>set(v)\<close> fails
  if the cell has a validity predicate that rejects \<open>v\<close>; otherwise it stores \<open>v\<close>
  and, only if \<open>v\<close> differs from the prior value, calls every subscriber with \<open>v\<close>,
  in subscription order, synchronously and depth first. The only validity predicate in the
  program is that of the robotic arm: \<^verbatim>\<open>value < self.right\<close>.
\<close>

definition isValidValue :: "system \<Rightarrow> cell \<Rightarrow> real \<Rightarrow> bool" where
  "isValidValue s c value = (case c of ArmLeft \<Rightarrow> value < armRight s | _ \<Rightarrow> True)"

fun notify ::
  "(cell \<Rightarrow> real \<Rightarrow> system \<Rightarrow> outcome) \<Rightarrow> listener list \<Rightarrow> real \<Rightarrow> system \<Rightarrow> outcome" where
  "notify setf [] v s = Done s"
| "notify setf (l # ls) v s = andThen (run_listener setf l v s) (notify setf ls v)"

fun set_cell :: "nat \<Rightarrow> cell \<Rightarrow> real \<Rightarrow> system \<Rightarrow> outcome" where
  "set_cell 0 c v s = OutOfFuel"
| "set_cell (Suc n) c v s =
     (if \<not> isValidValue s c v then Raised InvalidValueError s
      else if val s c = v then Done s
      else notify (set_cell n) (subs s c) v (put c v s))"

text \<open>
  Modelled from the spec: a derived cell is read-only, a \<^verbatim>\<open>set()\<close> from outside
  fails with \<^verbatim>\<open>ReadOnlyError\<close>. \<open>set_external\<close> is a write from outside the model.
\<close>

definition derived :: "cell \<Rightarrow> bool" where
  "derived c = (case c of
     SpringCell sp f \<Rightarrow> f \<in> {SpringForce, EquilibriumX, Right, Length, Energy}
   | ArmLeft \<Rightarrow> False)"

definition set_external :: "nat \<Rightarrow> cell \<Rightarrow> real \<Rightarrow> system \<Rightarrow> outcome" where
  "set_external n c v s = (if derived c then Raised ReadOnlyError s else set_cell n c v s)"

text \<open>\<^verbatim>\<open>link\<close> subscribes a listener and calls it at once with the current value;
  \<^verbatim>\<open>lazyLink\<close> only subscribes; \<^verbatim>\<open>reset\<close> sets the initial value.\<close>

definition lazyLink :: "cell \<Rightarrow> listener \<Rightarrow> system \<Rightarrow> system" where
  "lazyLink c l s = s\<lparr>subs := (subs s)(c := subs s c @ [l])\<rparr>"

definition link :: "nat \<Rightarrow> cell \<Rightarrow> listener \<Rightarrow> system \<Rightarrow> outcome" where
  "link n c l s = run_listener (set_cell n) l (val s c) (lazyLink c l s)"

definition reset_cell :: "nat \<Rightarrow> cell \<Rightarrow> system \<Rightarrow> outcome" where
  "reset_cell n c s = set_cell n c (initialValue s c) s"

definition create :: "cell \<Rightarrow> real \<Rightarrow> system \<Rightarrow> system" where
  "create c v s = s\<lparr>val := (val s)(c := v), initialValue := (initialValue s)(c := v),
                     subs := (subs s)(c := [])\<rparr>"

section \<open>Spring\<close>

text \<open>
  The options of \<^verbatim>\<open>Spring\<close>. \<open>opt_left = None\<close> is the JavaScript value
  \<^verbatim>\<open>undefined\<close>; a range that is not given is \<^verbatim>\<open>null\<close>.
\<close>

record options =
  opt_left :: "real option"
  opt_equilibriumLength :: real
  opt_springConstantRange :: range
  opt_displacementRange :: "range option"
  opt_appliedForceRange :: "range option"
  opt_appliedForceDelta :: real

definition APPLIED_FORCE_DELTA :: real where
  "APPLIED_FORCE_DELTA = 1"

definition default_options :: options where
  "default_options = \<lparr>opt_left = Some 0, opt_equilibriumLength = 1.5,
     opt_springConstantRange = RangeWithValue 100 1000 200,
     opt_displacementRange = None, opt_appliedForceRange = None,
     opt_appliedForceDelta = APPLIED_FORCE_DELTA\<rparr>"

text \<open>The two ranges: the one given and the one computed from it.\<close>

definition make_conf :: "options \<Rightarrow> spring_conf" where
  "make_conf opts =
     (let kr = opt_springConstantRange opts in
      case opt_appliedForceRange opts of
        Some fr \<Rightarrow>
          \<lparr>equilibriumLength = opt_equilibriumLength opts, springConstantRange = kr,
           appliedForceDelta = opt_appliedForceDelta opts, appliedForceRange = fr,
           displacementRange =
             RangeWithValue (rmin fr / rmin kr) (rmax fr / rmin kr)
               (defaultValue fr / defaultValue kr),
           forceDriven = True\<rparr>
      | None \<Rightarrow>
          (let dr = the (opt_displacementRange opts) in
           \<lparr>equilibriumLength = opt_equilibriumLength opts, springConstantRange = kr,
            appliedForceDelta = opt_appliedForceDelta opts,
            appliedForceRange =
              RangeWithValue (rmax kr * rmin dr) (rmax kr * rmax dr)
                (defaultValue kr * defaultValue dr),
            displacementRange = dr,
            forceDriven = False\<rparr>))"

text \<open>
  The four primary cells and the derived cells with their first values, each derived cell
  subscribed to its dependencies in the order the constructor creates them.
\<close>

definition spring_cells :: "spring_id \<Rightarrow> spring_conf \<Rightarrow> real \<Rightarrow> system \<Rightarrow> system" where
  "spring_cells sp c left s0 =
     (let s1 = (s0\<lparr>conf := (conf s0)(sp := c)\<rparr>);
          s2 = create (F sp) (defaultValue (appliedForceRange c)) s1;
          s3 = create (K sp) (defaultValue (springConstantRange c)) s2;
          s4 = create (X sp) (defaultValue (displacementRange c)) s3;
          s5 = create (SpringCell sp Left) left s4;
          s6 = lazyLink (F sp) (DeriveSpringForce sp)
                 (create (SpringCell sp SpringForce) (- val s5 (F sp)) s5);
          s7 = lazyLink (SpringCell sp Left) (DeriveEquilibriumX sp)
                 (create (SpringCell sp EquilibriumX) (left + equilibriumLength c) s6);
          s8 = lazyLink (X sp) (DeriveRight sp)
                 (lazyLink (SpringCell sp EquilibriumX) (DeriveRight sp)
                    (create (SpringCell sp Right)
                       (val s7 (SpringCell sp EquilibriumX) + val s7 (X sp)) s7));
          s9 = (if forceDriven c
                then lazyLink (SpringCell sp EquilibriumX) (DeriveRightRange sp)
                       (lazyLink (K sp) (DeriveRightRange sp)
                          (s8\<lparr>rightRange := (rightRange s8)(sp := rightRangeOf sp s8)\<rparr>))
                else lazyLink (SpringCell sp EquilibriumX) (DeriveRightRange sp)
                       (s8\<lparr>rightRange := (rightRange s8)(sp := rightRangeOf sp s8)\<rparr>));
          s10 = lazyLink (SpringCell sp Right) (DeriveLength sp)
                  (lazyLink (SpringCell sp Left) (DeriveLength sp)
                     (create (SpringCell sp Length)
                        \<bar>val s9 (SpringCell sp Right) - left\<bar> s9))
      in lazyLink (X sp) (DeriveEnergy sp)
           (lazyLink (K sp) (DeriveEnergy sp)
              (create (SpringCell sp Energy)
                 (val s10 (K sp) * val s10 (X sp) * val s10 (X sp) / 2) s10)))"

text \<open>
  The constructor: the assertions on the options, the cells, then the three observers,
  each called once as it is linked. With \<^verbatim>\<open>left\<close> undefined, \<^verbatim>\<open>equilibriumX\<close> and
  \<^verbatim>\<open>right\<close> are \<^verbatim>\<open>NaN\<close> and the assertion \<^verbatim>\<open>right - left > 0\<close> in the derivation of
  \<^verbatim>\<open>rightProperty\<close> fails.
\<close>

definition Spring :: "nat \<Rightarrow> spring_id \<Rightarrow> options \<Rightarrow> system \<Rightarrow> outcome" where
  "Spring n sp opts s =
     (if \<not> opt_equilibriumLength opts > 0 then Raised AssertionError s
      else if \<not> rmin (opt_springConstantRange opts) > 0 then Raised AssertionError s
      else if \<not> opt_appliedForceDelta opts > 0 then Raised AssertionError s
      else if (opt_displacementRange opts = None) = (opt_appliedForceRange opts = None)
        then Raised AssertionError s
      else case opt_left opts of
        None \<Rightarrow> Raised AssertionError s
      | Some left \<Rightarrow>
          (let c = make_conf opts in
           if \<not> (left + equilibriumLength c + defaultValue (displacementRange c)) - left > 0
           then Raised AssertionError s
           else sequence
                  [link n (F sp) (AppliedForceObserver sp),
                   link n (K sp) (SpringConstantObserver sp),
                   link n (X sp) (DisplacementObserver sp)]
                  (spring_cells sp c left s)))"

definition Spring_reset :: "nat \<Rightarrow> spring_id \<Rightarrow> system \<Rightarrow> outcome" where
  "Spring_reset n sp =
     sequence [reset_cell n (F sp), reset_cell n (K sp), reset_cell n (X sp),
               reset_cell n (SpringCell sp Left)]"

text \<open>A model with nothing in it, and a spring on its own.\<close>

definition no_conf :: spring_conf where
  "no_conf = \<lparr>equilibriumLength = 0, springConstantRange = Range2 0 0, appliedForceDelta = 0,
     appliedForceRange = Range2 0 0, displacementRange = Range2 0 0, forceDriven = False\<rparr>"

definition empty_system :: system where
  "empty_system = \<lparr>conf = (\<lambda>_. no_conf), val = (\<lambda>_. 0), rightRange = (\<lambda>_. (0, 0)),
     subs = (\<lambda>_. []), initialValue = (\<lambda>_. 0), armRight = 0, ignoreUpdates = False,
     changes = []\<rparr>"

section \<open>RoboticArm\<close>

definition RoboticArm :: "real \<Rightarrow> real \<Rightarrow> system \<Rightarrow> system" where
  "RoboticArm left right s = create ArmLeft left (s\<lparr>armRight := right\<rparr>)"

definition RoboticArm_reset :: "nat \<Rightarrow> system \<Rightarrow> outcome" where
  "RoboticArm_reset n s = reset_cell n ArmLeft s"

section \<open>SeriesSystem\<close>

text \<open>
  The constructor of \<^verbatim>\<open>SeriesSystem\<close>. The equivalent spring is created with
  \<^verbatim>\<open>left: this.leftSpring.left\<close>; \<^verbatim>\<open>Spring\<close> has a cell \<^verbatim>\<open>leftProperty\<close> and no field
  \<^verbatim>\<open>left\<close>, so the expression is \<^verbatim>\<open>undefined\<close>. It is the parameter
  \<open>leftSpring_left\<close> here, and \<open>SeriesSystem\<close> is the constructor as written.
\<close>

definition leftSpring_options :: options where
  "leftSpring_options = default_options\<lparr>opt_left := Some 0, opt_equilibriumLength := 0.75,
     opt_springConstantRange := RangeWithValue 200 600 200,
     opt_appliedForceRange := Some (RangeWithValue (- 100) 100 0)\<rparr>"

definition SeriesSystem_with :: "real option \<Rightarrow> nat \<Rightarrow> outcome" where
  "SeriesSystem_with leftSpring_left n =
     sequence
       [Spring n LeftSpring leftSpring_options,
        (\<lambda>s. Spring n RightSpring
           (default_options\<lparr>opt_left := Some (val s (SpringCell LeftSpring Right)),
              opt_equilibriumLength := equilibriumLength (conf s LeftSpring),
              opt_springConstantRange := springConstantRange (conf s LeftSpring),
              opt_appliedForceRange := Some (appliedForceRange (conf s LeftSpring))\<rparr>) s),
        (\<lambda>s. Done (RoboticArm (val s (SpringCell RightSpring Right)) 3 s)),
        (\<lambda>s. Spring n EquivalentSpring
           (default_options\<lparr>opt_left := leftSpring_left,
              opt_equilibriumLength :=
                equilibriumLength (conf s LeftSpring) + equilibriumLength (conf s RightSpring),
              opt_springConstantRange :=
                Range2
                  (1 / (1 / rmin (springConstantRange (conf s LeftSpring))
                        + 1 / rmin (springConstantRange (conf s RightSpring))))
                  (1 / (1 / rmax (springConstantRange (conf s LeftSpring))
                        + 1 / rmax (springConstantRange (conf s RightSpring)))),
              opt_appliedForceRange := Some (appliedForceRange (conf s LeftSpring))\<rparr>) s),
        link n (F EquivalentSpring) EquivalentForceLink,
        link n (K LeftSpring) UpdateEquivalentSpringConstant,
        link n (K RightSpring) UpdateEquivalentSpringConstant,
        link n ArmLeft ArmLink,
        link n (SpringCell LeftSpring Right) LeftSpringRightLink,
        link n (SpringCell RightSpring Right) RightSpringRightLink,
        (\<lambda>s. Done (lazyLink (SpringCell LeftSpring Left) LeftSpringLeftGuard s)),
        (\<lambda>s. Done (lazyLink (SpringCell EquivalentSpring Left) EquivalentLeftGuard s)),
        (\<lambda>s. Done (lazyLink (SpringCell EquivalentSpring EquilibriumX)
                      EquivalentEquilibriumXGuard s))]
       empty_system"

definition SeriesSystem :: "nat \<Rightarrow> outcome" where
  "SeriesSystem n = SeriesSystem_with None n"

definition SeriesSystem_reset :: "nat \<Rightarrow> system \<Rightarrow> outcome" where
  "SeriesSystem_reset n =
     sequence [Spring_reset n LeftSpring, Spring_reset n RightSpring, RoboticArm_reset n,
               Spring_reset n EquivalentSpring]"

text \<open>What holds of the state an outcome carries.\<close>

definition holds :: "(system \<Rightarrow> bool) \<Rightarrow> outcome \<Rightarrow> bool" where
  "holds P r = (case r of Done s \<Rightarrow> P s | Raised e s \<Rightarrow> P s | OutOfFuel \<Rightarrow> True)"

fun targets :: "listener \<Rightarrow> cell set" where
  "targets (DeriveSpringForce sp) = {SpringCell sp SpringForce}"
| "targets (DeriveEquilibriumX sp) = {SpringCell sp EquilibriumX}"
| "targets (DeriveRight sp) = {SpringCell sp Right}"
| "targets (DeriveRightRange sp) = {}"
| "targets (DeriveLength sp) = {SpringCell sp Length}"
| "targets (DeriveEnergy sp) = {SpringCell sp Energy}"
| "targets (AppliedForceObserver sp) = {X sp}"
| "targets (SpringConstantObserver sp) = {X sp, F sp}"
| "targets (DisplacementObserver sp) = {F sp}"
| "targets EquivalentForceLink = {F LeftSpring, F RightSpring}"
| "targets UpdateEquivalentSpringConstant = {K EquivalentSpring}"
| "targets ArmLink = {X EquivalentSpring}"
| "targets LeftSpringRightLink = {SpringCell RightSpring Left}"
| "targets RightSpringRightLink = {ArmLeft}"
| "targets LeftSpringLeftGuard = {}"
| "targets EquivalentLeftGuard = {}"
| "targets EquivalentEquilibriumXGuard = {}"

definition closed :: "system \<Rightarrow> cell set \<Rightarrow> bool" where
  "closed s A \<longleftrightarrow> (\<forall>c\<in>A. \<forall>l\<in>set (subs s c). targets l \<subseteq> A)"

definition frame :: "cell set \<Rightarrow> system \<Rightarrow> system \<Rightarrow> bool" where
  "frame A s s' \<longleftrightarrow> conf s' = conf s \<and> subs s' = subs s \<and> initialValue s' = initialValue s
     \<and> armRight s' = armRight s \<and> (\<forall>c. c \<notin> A \<longrightarrow> val s' c = val s c)"

definition standalone :: "spring_id \<Rightarrow> system \<Rightarrow> bool" where
  "standalone sp s \<longleftrightarrow>
     subs s (F sp) = [DeriveSpringForce sp, AppliedForceObserver sp]
     \<and> subs s (K sp) =
         (if forceDriven (conf s sp)
          then [DeriveRightRange sp, DeriveEnergy sp, SpringConstantObserver sp]
          else [DeriveEnergy sp, SpringConstantObserver sp])
     \<and> subs s (X sp) = [DeriveRight sp, DeriveEnergy sp, DisplacementObserver sp]
     \<and> subs s (SpringCell sp Left) = [DeriveEquilibriumX sp, DeriveLength sp]
     \<and> subs s (SpringCell sp EquilibriumX) = [DeriveRight sp, DeriveRightRange sp]
     \<and> subs s (SpringCell sp Right) = [DeriveLength sp]
     \<and> subs s (SpringCell sp SpringForce) = []
     \<and> subs s (SpringCell sp Length) = []
     \<and> subs s (SpringCell sp Energy) = []"

definition quantize :: "spring_conf \<Rightarrow> real \<Rightarrow> real" where
  "quantize c appliedForce =
     constrainValue (appliedForceRange c)
       (if forceDriven c
        then Math_round (appliedForce / appliedForceDelta c) * appliedForceDelta c
        else appliedForce)"



definition derived_cells :: "spring_id \<Rightarrow> cell set" where
  "derived_cells sp = SpringCell sp ` {SpringForce, EquilibriumX, Right, Length, Energy}"

definition moving_cells :: "spring_id \<Rightarrow> cell set" where
  "moving_cells sp = {F sp, X sp} \<union> SpringCell sp ` {SpringForce, Right, Length, Energy}"









section \<open>The listeners of a series system\<close>


definition series_springs :: "spring_id list" where
  "series_springs = [LeftSpring, RightSpring, EquivalentSpring]"

definition series_cells :: "cell list" where
  "series_cells =
     ArmLeft # concat (map (\<lambda>sp. map (SpringCell sp)
       [AppliedForce, SpringConstant, Displacement, Left, SpringForce, EquilibriumX, Right,
        Length, Energy]) series_springs)"

fun spring_subs :: "spring_id \<Rightarrow> field \<Rightarrow> listener list" where
  "spring_subs sp AppliedForce = [DeriveSpringForce sp, AppliedForceObserver sp]"
| "spring_subs sp SpringConstant =
     [DeriveRightRange sp, DeriveEnergy sp, SpringConstantObserver sp]"
| "spring_subs sp Displacement = [DeriveRight sp, DeriveEnergy sp, DisplacementObserver sp]"
| "spring_subs sp Left = [DeriveEquilibriumX sp, DeriveLength sp]"
| "spring_subs sp EquilibriumX = [DeriveRight sp, DeriveRightRange sp]"
| "spring_subs sp Right = [DeriveLength sp]"
| "spring_subs sp SpringForce = []"
| "spring_subs sp Length = []"
| "spring_subs sp Energy = []"

fun series_links :: "cell \<Rightarrow> listener list" where
  "series_links (SpringCell EquivalentSpring AppliedForce) = [EquivalentForceLink]"
| "series_links (SpringCell LeftSpring SpringConstant) = [UpdateEquivalentSpringConstant]"
| "series_links (SpringCell RightSpring SpringConstant) = [UpdateEquivalentSpringConstant]"
| "series_links ArmLeft = [ArmLink]"
| "series_links (SpringCell LeftSpring Right) = [LeftSpringRightLink]"
| "series_links (SpringCell RightSpring Right) = [RightSpringRightLink]"
| "series_links (SpringCell LeftSpring Left) = [LeftSpringLeftGuard]"
| "series_links (SpringCell EquivalentSpring Left) = [EquivalentLeftGuard]"
| "series_links (SpringCell EquivalentSpring EquilibriumX) = [EquivalentEquilibriumXGuard]"
| "series_links c = []"

definition series_subs :: "cell \<Rightarrow> listener list" where
  "series_subs c = (case c of SpringCell sp f \<Rightarrow> spring_subs sp f | ArmLeft \<Rightarrow> []) @ series_links c"

definition wired :: "system \<Rightarrow> bool" where
  "wired s \<longleftrightarrow> list_all (\<lambda>c. subs s c = series_subs c) series_cells
     \<and> list_all (\<lambda>sp. forceDriven (conf s sp)) series_springs"




fun anchor_rank :: "cell \<Rightarrow> nat" where
  "anchor_rank (SpringCell sp Left) = 3"
| "anchor_rank (SpringCell sp EquilibriumX) = 2"
| "anchor_rank (SpringCell sp Right) = 1"
| "anchor_rank c = 0"






text \<open>A rank of the cells that falls along every listener bounds the depth of a write.\<close>

definition ranked :: "system \<Rightarrow> cell set \<Rightarrow> (cell \<Rightarrow> nat) \<Rightarrow> bool" where
  "ranked s A rank \<longleftrightarrow>
     closed s A \<and> (\<forall>c\<in>A. \<forall>l\<in>set (subs s c). \<forall>c'\<in>targets l. rank c' < rank c)"


section \<open>Reading an outcome\<close>

definition value_of :: "outcome \<Rightarrow> cell \<Rightarrow> real option" where
  "value_of r c = (case r of Done s \<Rightarrow> Some (val s c) | _ \<Rightarrow> None)"

definition returns :: "outcome \<Rightarrow> bool" where
  "returns r = (case r of Done s \<Rightarrow> True | _ \<Rightarrow> False)"

definition raises :: "outcome \<Rightarrow> bool" where
  "raises r = (case r of Raised e s \<Rightarrow> True | _ \<Rightarrow> False)"

definition the_system :: "outcome \<Rightarrow> system" where
  "the_system r = (case r of Done s \<Rightarrow> s | Raised e s \<Rightarrow> s | OutOfFuel \<Rightarrow> empty_system)"

section \<open>Concrete springs\<close>

text \<open>The force-driven spring of the concrete scenario, the default \<^verbatim>\<open>appliedForceDelta\<close>.\<close>

definition scenario_options :: options where
  "scenario_options = \<lparr>opt_left = Some 0, opt_equilibriumLength = 1.5,
     opt_springConstantRange = RangeWithValue 100 1000 200,
     opt_displacementRange = None,
     opt_appliedForceRange = Some (RangeWithValue (- 10) 10 0),
     opt_appliedForceDelta = APPLIED_FORCE_DELTA\<rparr>"

definition scenario_spring :: system where
  "scenario_spring = the_system (Spring 10 SingleSpring scenario_options empty_system)"

definition scenario_force_10 :: outcome where
  "scenario_force_10 = set_external 10 (F SingleSpring) 10 scenario_spring"

definition scenario_constant_500 :: outcome where
  "scenario_constant_500 = andThen scenario_force_10 (set_external 10 (K SingleSpring) 500)"









text \<open>A robotic arm on its own, with the default ends 0 and 1.\<close>

definition default_arm :: system where
  "default_arm = RoboticArm 0 1 empty_system"

definition series_system :: system where
  "series_system = the_system (SeriesSystem_with (Some 0) 10)"





lemma andThen_simps [simp]:
  "andThen (Done s) f = f s"
  "andThen (Raised e s) f = Raised e s"
  "andThen OutOfFuel f = OutOfFuel"
  by (simp_all add: andThen_def)


lemma andThen_Raised:
  "andThen r f = Raised e s' \<longleftrightarrow> r = Raised e s' \<or> (\<exists>s1. r = Done s1 \<and> f s1 = Raised e s')"
  by (cases r) auto

lemma holds_simps [simp]:
  "holds P (Done s) = P s" "holds P (Raised e s) = P s" "holds P OutOfFuel"
  by (simp_all add: holds_def)

lemma holds_andThen:
  "holds P r \<Longrightarrow> (\<And>s1. r = Done s1 \<Longrightarrow> P s1 \<Longrightarrow> holds P (f s1)) \<Longrightarrow> holds P (andThen r f)"
  by (cases r) simp_all

lemma frame_refl [simp]: "frame A s s"
  by (simp add: frame_def)

lemma frame_trans: "frame A s s1 \<Longrightarrow> frame A s1 s2 \<Longrightarrow> frame A s s2"
  by (simp add: frame_def)

lemma frame_put: "c \<in> A \<Longrightarrow> frame A s (put c v s)"
  by (auto simp: frame_def put_def)

lemma frame_closed: "frame A s s' \<Longrightarrow> closed s A \<Longrightarrow> closed s' A"
  by (simp add: frame_def closed_def)

lemma run_listener_frame:
  assumes setf: "\<And>c w s1. c \<in> A \<Longrightarrow> frame A s s1 \<Longrightarrow> holds (frame A s1) (setf c w s1)"
    and l: "targets l \<subseteq> A"
  shows "holds (frame A s) (run_listener setf l v s)"
proof -
  have one: "\<And>c w. c \<in> A \<Longrightarrow> holds (frame A s) (setf c w s)"
    using setf [OF _ frame_refl] by simp
  have flag: "\<And>b. frame A s (s\<lparr>ignoreUpdates := b\<rparr>)"
    by (simp add: frame_def)
  show ?thesis
  proof (cases l)
    case EquivalentForceLink
    have "holds (frame A s) (andThen (setf (F LeftSpring) v s) (setf (F RightSpring) v))"
    proof (rule holds_andThen)
      show "holds (frame A s) (setf (F LeftSpring) v s)"
        using l EquivalentForceLink by (intro one) simp
    next
      fix s1 assume "frame A s s1"
      then show "holds (frame A s) (setf (F RightSpring) v s1)"
        using setf [of "F RightSpring" s1 v] l EquivalentForceLink
        by (cases "setf (F RightSpring) v s1") (auto intro: frame_trans)
    qed
    then show ?thesis using EquivalentForceLink by simp
  next
    case ArmLink
    show ?thesis
    proof (cases "ignoreUpdates s")
      case True
      then show ?thesis using ArmLink by simp
    next
      case False
      let ?s0 = "s\<lparr>ignoreUpdates := True\<rparr>"
      let ?r = "setf (X EquivalentSpring) (v - val s (SpringCell EquivalentSpring EquilibriumX)) ?s0"
      have "holds (frame A ?s0) ?r"
        using setf [of "X EquivalentSpring" ?s0] l ArmLink flag by simp
      then have "holds (frame A s) (andThen ?r (\<lambda>s'. Done (s'\<lparr>ignoreUpdates := False\<rparr>)))"
        by (cases ?r) (auto simp: frame_def)
      then show ?thesis using ArmLink False by simp
    qed
  qed (use l one in \<open>auto simp: Let_def frame_def\<close>)
qed

lemma holds_frame_trans: "frame A s s1 \<Longrightarrow> holds (frame A s1) r \<Longrightarrow> holds (frame A s) r"
  by (cases r) (auto intro: frame_trans)

lemma notify_frame:
  assumes setf: "\<And>c w s1. c \<in> A \<Longrightarrow> closed s1 A \<Longrightarrow> holds (frame A s1) (setf c w s1)"
  shows "closed s A \<Longrightarrow> \<forall>l\<in>set ls. targets l \<subseteq> A \<Longrightarrow> holds (frame A s) (notify setf ls v s)"
proof (induction ls arbitrary: s)
  case Nil
  then show ?case by simp
next
  case (Cons l ls)
  have first: "holds (frame A s) (run_listener setf l v s)"
  proof (rule run_listener_frame)
    fix c w s1 assume "c \<in> A" "frame A s s1"
    then show "holds (frame A s1) (setf c w s1)"
      using setf frame_closed Cons.prems(1) by blast
  next
    show "targets l \<subseteq> A" using Cons.prems(2) by simp
  qed
  have "holds (frame A s) (andThen (run_listener setf l v s) (notify setf ls v))"
  proof (rule holds_andThen [OF first])
    fix s1 assume s1: "frame A s s1"
    then have "closed s1 A" using Cons.prems(1) frame_closed by blast
    then have "holds (frame A s1) (notify setf ls v s1)"
      using Cons.IH Cons.prems(2) by simp
    then show "holds (frame A s) (notify setf ls v s1)"
      using s1 holds_frame_trans by blast
  qed
  then show ?case by simp
qed

lemma set_cell_frame:
  "closed s A \<Longrightarrow> c \<in> A \<Longrightarrow> holds (frame A s) (set_cell n c v s)"
proof (induction n arbitrary: c v s)
  case 0
  then show ?case by simp
next
  case (Suc n)
  let ?s1 = "put c v s"
  have f1: "frame A s ?s1" using Suc.prems(2) by (rule frame_put)
  then have c1: "closed ?s1 A" using Suc.prems(1) frame_closed by blast
  have ls: "\<forall>l\<in>set (subs s c). targets l \<subseteq> A"
    using Suc.prems by (simp add: closed_def)
  have "holds (frame A ?s1) (notify (set_cell n) (subs s c) v ?s1)"
    by (rule notify_frame [OF _ c1 ls]) (use Suc.IH in blast)
  then have "holds (frame A s) (notify (set_cell n) (subs s c) v ?s1)"
    using f1 holds_frame_trans by blast
  then show ?case by simp
qed

lemma closed_UNIV [simp]: "closed s UNIV"
  by (simp add: closed_def)


subsection \<open>The flag is as it was when a propagation returns\<close>




subsection \<open>More fuel does not change a result\<close>

lemma andThen_fuel:
  "andThen r f \<noteq> OutOfFuel \<Longrightarrow> r \<noteq> OutOfFuel \<and> (\<forall>s1. r = Done s1 \<longrightarrow> f s1 \<noteq> OutOfFuel)"
  by (cases r) auto

lemma run_listener_mono:
  assumes ext: "\<And>c w s1. setf c w s1 \<noteq> OutOfFuel \<Longrightarrow> setf' c w s1 = setf c w s1"
    and run: "run_listener setf l v s \<noteq> OutOfFuel"
  shows "run_listener setf' l v s = run_listener setf l v s"
proof (cases l)
  case EquivalentForceLink
  then have a: "andThen (setf (F LeftSpring) v s) (setf (F RightSpring) v) \<noteq> OutOfFuel"
    using run by simp
  show ?thesis
  proof (cases "setf (F LeftSpring) v s")
    case (Done s1)
    then show ?thesis using a ext [of "F LeftSpring" v s] ext [of "F RightSpring" v s1]
        EquivalentForceLink by simp
  next
    case (Raised e s1)
    then show ?thesis using ext [of "F LeftSpring" v s] EquivalentForceLink by simp
  next
    case OutOfFuel
    then show ?thesis using a by simp
  qed
next
  case ArmLink
  show ?thesis
  proof (cases "ignoreUpdates s")
    case True
    then show ?thesis using ArmLink by simp
  next
    case False
    let ?r = "setf (X EquivalentSpring) (v - val s (SpringCell EquivalentSpring EquilibriumX))
                (s\<lparr>ignoreUpdates := True\<rparr>)"
    have "?r \<noteq> OutOfFuel" using run ArmLink False by (cases ?r) auto
    then show ?thesis using ext ArmLink False by simp
  qed
qed (use run ext in \<open>auto simp: Let_def split: if_splits\<close>)

lemma notify_mono:
  assumes ext: "\<And>c w s1. setf c w s1 \<noteq> OutOfFuel \<Longrightarrow> setf' c w s1 = setf c w s1"
  shows "notify setf ls v s \<noteq> OutOfFuel \<Longrightarrow> notify setf' ls v s = notify setf ls v s"
proof (induction ls arbitrary: s)
  case Nil
  then show ?case by simp
next
  case (Cons l ls)
  then have a: "andThen (run_listener setf l v s) (notify setf ls v) \<noteq> OutOfFuel" by simp
  then have r: "run_listener setf l v s \<noteq> OutOfFuel" using andThen_fuel by blast
  have eq: "run_listener setf' l v s = run_listener setf l v s"
    by (rule run_listener_mono [OF ext r])
  show ?case
  proof (cases "run_listener setf l v s")
    case (Done s1)
    then have "notify setf ls v s1 \<noteq> OutOfFuel" using a by simp
    then show ?thesis using Cons.IH eq Done by simp
  qed (use eq in simp_all)
qed

lemma set_cell_Suc: "set_cell n c v s \<noteq> OutOfFuel \<Longrightarrow> set_cell (Suc n) c v s = set_cell n c v s"
proof (induction n arbitrary: c v s)
  case 0
  then show ?case by simp
next
  case (Suc n)
  show ?case
  proof (cases "isValidValue s c v \<and> val s c \<noteq> v")
    case True
    then have "notify (set_cell n) (subs s c) v (put c v s) \<noteq> OutOfFuel"
      using Suc.prems by simp
    then have "notify (set_cell (Suc n)) (subs s c) v (put c v s)
               = notify (set_cell n) (subs s c) v (put c v s)"
      by (rule notify_mono [rotated]) (use Suc.IH in blast)
    then show ?thesis using True by simp
  next
    case False
    then show ?thesis by auto
  qed
qed

lemma set_cell_more: "set_cell n c v s \<noteq> OutOfFuel \<Longrightarrow> set_cell (n + k) c v s = set_cell n c v s"
  by (induction k) (simp_all add: set_cell_Suc del: set_cell.simps)

lemma standalone_closed_derived: "standalone sp s \<Longrightarrow> closed s (derived_cells sp)"
  by (auto simp: standalone_def closed_def derived_cells_def)


lemma frame_standalone: "frame A s s' \<Longrightarrow> standalone sp s \<Longrightarrow> standalone sp s'"
  by (simp add: frame_def standalone_def)

lemma run_listener_set_cell_frame:
  "closed s A \<Longrightarrow> targets l \<subseteq> A \<Longrightarrow> holds (frame A s) (run_listener (set_cell n) l v s)"
  by (rule run_listener_frame) (use set_cell_frame frame_closed in blast)+

lemma set_cell_same: "set_cell n c v s = Done s' \<Longrightarrow> val s c = v \<Longrightarrow> s' = s"
  by (cases n) (auto split: if_splits)

lemma DisplacementObserver_quantize:
  "run_listener setf (DisplacementObserver sp) x s =
     (if contains (displacementRange (conf s sp)) x
      then setf (F sp) (quantize (conf s sp) (val s (K sp) * x)) s
      else Raised AssertionError s)"
  by (simp add: quantize_def Let_def)








lemma not_derived [simp]: "\<not> derived (F sp)" "\<not> derived (K sp)" "\<not> derived (X sp)"
  "\<not> derived (SpringCell sp Left)" "\<not> derived ArmLeft"
  by (simp_all add: derived_def)







subsection \<open>Rounding and clamping settle after two rounds\<close>

lemma clamp_round_settles:
  fixes R :: "real \<Rightarrow> real"
  assumes mono: "\<And>a b. a \<le> b \<Longrightarrow> R a \<le> R b" and idem: "\<And>a. R (R a) = R a"
  shows "min (max (R (min (max (R (min (max (R y) lo) hi)) lo) hi)) lo) hi
         = min (max (R (min (max (R y) lo) hi)) lo) hi"
proof (cases "lo \<le> hi")
  case False
  then have "\<And>v. min (max v lo) hi = hi" by (simp add: min_def max_def)
  then show ?thesis by simp
next
  case True
  note m = mono [of lo hi, OF True]
  consider "lo \<le> R y" "R y \<le> hi" | "hi < R y" | "R y < lo" by linarith
  then show ?thesis
  proof cases
    case 1
    then have "min (max (R y) lo) hi = R y" by (simp add: min_def max_def)
    then show ?thesis by (simp add: idem)
  next
    case 2
    then have b: "min (max (R y) lo) hi = hi" using True by (simp add: min_def max_def)
    consider "lo \<le> R hi" "R hi \<le> hi" | "hi < R hi" | "R hi < lo" by linarith
    then show ?thesis
    proof cases
      case 1
      then have "min (max (R hi) lo) hi = R hi" by (simp add: min_def max_def)
      then show ?thesis by (simp add: b idem)
    next
      case 2
      then have "min (max (R hi) lo) hi = hi" using True by (simp add: min_def max_def)
      then show ?thesis by (simp add: b)
    next
      case 3
      then have c: "min (max (R hi) lo) hi = lo" using True by (simp add: min_def max_def)
      have "R lo < lo" using m 3 by linarith
      then have "min (max (R lo) lo) hi = lo" using True by (simp add: min_def max_def)
      then show ?thesis by (simp add: b c)
    qed
  next
    case 3
    then have b: "min (max (R y) lo) hi = lo" using True by (simp add: min_def max_def)
    consider "lo \<le> R lo" "R lo \<le> hi" | "hi < R lo" | "R lo < lo" by linarith
    then show ?thesis
    proof cases
      case 1
      then have "min (max (R lo) lo) hi = R lo" by (simp add: min_def max_def)
      then show ?thesis by (simp add: b idem)
    next
      case 2
      then have c: "min (max (R lo) lo) hi = hi" using True by (simp add: min_def max_def)
      have "hi < R hi" using m 2 by linarith
      then have "min (max (R hi) lo) hi = hi" using True by (simp add: min_def max_def)
      then show ?thesis by (simp add: b c)
    next
      case 3
      then have "min (max (R lo) lo) hi = lo" using True by (simp add: min_def max_def)
      then show ?thesis by (simp add: b)
    qed
  qed
qed

lemma Math_round_mono: "0 < d \<Longrightarrow> a \<le> b \<Longrightarrow> Math_round (a / d) * d \<le> Math_round (b / d) * d"
proof -
  assume d: "0 < d" and ab: "a \<le> b"
  then have "a / d + 1 / 2 \<le> b / d + 1 / 2" by (simp add: divide_right_mono)
  then have "\<lfloor>a / d + 1 / 2\<rfloor> \<le> \<lfloor>b / d + 1 / 2\<rfloor>" by (rule floor_mono)
  then have "Math_round (a / d) \<le> Math_round (b / d)" by (simp add: Math_round_def)
  then show ?thesis using d by (simp add: mult_right_mono)
qed

lemma Math_round_multiple: "0 < d \<Longrightarrow> Math_round (Math_round y * d / d) = Math_round y"
proof -
  assume "0 < d"
  then have "Math_round y * d / d = Math_round y" by simp
  moreover have "Math_round (of_int m) = of_int m" for m
  proof -
    have "\<lfloor>(of_int m :: real) + 1 / 2\<rfloor> = m" by linarith
    then show ?thesis by (simp add: Math_round_def)
  qed
  ultimately show ?thesis by (simp add: Math_round_def)
qed

lemma quantize_settles:
  assumes d: "0 < appliedForceDelta c"
  shows "quantize c (quantize c (quantize c y)) = quantize c (quantize c y)"
proof (cases "forceDriven c")
  case True
  define R where "R = (\<lambda>y. Math_round (y / appliedForceDelta c) * appliedForceDelta c)"
  define lo where "lo = rmin (appliedForceRange c)"
  define hi where "hi = rmax (appliedForceRange c)"
  have mono: "\<And>a b. a \<le> b \<Longrightarrow> R a \<le> R b"
    unfolding R_def by (rule Math_round_mono [OF d])
  have idem: "\<And>a. R (R a) = R a"
    unfolding R_def by (simp only: Math_round_multiple [OF d])
  have q: "quantize c v = min (max (R v) lo) hi" for v
    using True by (simp add: quantize_def constrainValue_def R_def lo_def hi_def)
  show ?thesis
    unfolding q by (rule clamp_round_settles [of R, OF mono idem])
next
  case False
  have "min (max (min (max v lo) hi) lo) hi = min (max v lo) hi" for v lo hi :: real
    by (simp add: min_def max_def)
  then show ?thesis using False by (simp add: quantize_def constrainValue_def)
qed

section \<open>The series system\<close>




subsection \<open>A write returns when the listeners it reaches are ranked\<close>

lemma frame_ranked: "frame A s s' \<Longrightarrow> ranked s A rank \<Longrightarrow> ranked s' A rank"
  by (simp add: frame_def ranked_def closed_def)

lemma run_listener_fuel:
  assumes setf: "\<And>c w s1. c \<in> targets l \<Longrightarrow> frame A s s1 \<Longrightarrow> setf c w s1 \<noteq> OutOfFuel"
    and fr: "\<And>c w s1. c \<in> A \<Longrightarrow> frame A s s1 \<Longrightarrow> holds (frame A s1) (setf c w s1)"
    and l: "targets l \<subseteq> A"
  shows "run_listener setf l v s \<noteq> OutOfFuel"
proof (cases l)
  case EquivalentForceLink
  show ?thesis
  proof (cases "setf (F LeftSpring) v s")
    case (Done s1)
    then have "frame A s s1"
      using fr [of "F LeftSpring" s v] l EquivalentForceLink by simp
    then have "setf (F RightSpring) v s1 \<noteq> OutOfFuel"
      using setf EquivalentForceLink by simp
    then show ?thesis using Done EquivalentForceLink by simp
  next
    case (Raised e s1)
    then show ?thesis using EquivalentForceLink by simp
  next
    case OutOfFuel
    then show ?thesis using setf [of "F LeftSpring" s v] EquivalentForceLink by simp
  qed
next
  case ArmLink
  show ?thesis
  proof (cases "ignoreUpdates s")
    case True
    then show ?thesis using ArmLink by simp
  next
    case False
    let ?s0 = "s\<lparr>ignoreUpdates := True\<rparr>"
    let ?r = "setf (X EquivalentSpring) (v - val s (SpringCell EquivalentSpring EquilibriumX)) ?s0"
    have "frame A s ?s0" by (simp add: frame_def)
    then have "?r \<noteq> OutOfFuel" using setf ArmLink by simp
    then show ?thesis using ArmLink False by (cases ?r) simp_all
  qed
qed (use setf [OF _ frame_refl] in \<open>auto simp: Let_def\<close>)

lemma notify_fuel:
  assumes setf: "\<And>c w s1. c \<in> B \<Longrightarrow> frame A s0 s1 \<Longrightarrow> setf c w s1 \<noteq> OutOfFuel"
    and fr: "\<And>c w s1. c \<in> A \<Longrightarrow> frame A s0 s1 \<Longrightarrow> holds (frame A s1) (setf c w s1)"
  shows "frame A s0 s \<Longrightarrow> \<forall>l\<in>set ls. targets l \<subseteq> A \<and> targets l \<subseteq> B
         \<Longrightarrow> notify setf ls v s \<noteq> OutOfFuel"
proof (induction ls arbitrary: s)
  case Nil
  then show ?case by simp
next
  case (Cons l ls)
  have tl: "targets l \<subseteq> A" "targets l \<subseteq> B" using Cons.prems(2) by simp_all
  have fr': "\<And>c w s1. c \<in> A \<Longrightarrow> frame A s s1 \<Longrightarrow> holds (frame A s1) (setf c w s1)"
    using fr Cons.prems(1) frame_trans by blast
  have first: "run_listener setf l v s \<noteq> OutOfFuel"
  proof (rule run_listener_fuel [OF _ fr' tl(1)])
    fix c w s1 assume "c \<in> targets l" "frame A s s1"
    then show "setf c w s1 \<noteq> OutOfFuel"
      using setf tl(2) Cons.prems(1) frame_trans by blast
  qed
  have frl: "holds (frame A s) (run_listener setf l v s)"
    by (rule run_listener_frame [OF fr' tl(1)])
  show ?case
  proof (cases "run_listener setf l v s")
    case (Done s1)
    then have "frame A s0 s1" using frl Cons.prems(1) frame_trans by auto
    then have "notify setf ls v s1 \<noteq> OutOfFuel" using Cons.IH Cons.prems(2) by simp
    then show ?thesis using Done by simp
  qed (use first in simp_all)
qed

lemma set_cell_ranked:
  "ranked s A rank \<Longrightarrow> c \<in> A \<Longrightarrow> rank c < n \<Longrightarrow> set_cell n c v s \<noteq> OutOfFuel"
proof (induction n arbitrary: c v s)
  case 0
  then show ?case by simp
next
  case (Suc n)
  let ?p = "put c v s"
  have cl: "closed s A" using Suc.prems(1) by (simp add: ranked_def)
  have "notify (set_cell n) (subs s c) v ?p \<noteq> OutOfFuel"
  proof (rule notify_fuel [where A = A and B = "{c' \<in> A. rank c' < n}" and ?s0.0 = ?p])
    fix c' w s1 assume "c' \<in> {c' \<in> A. rank c' < n}" "frame A ?p s1"
    moreover have "ranked ?p A rank"
      using Suc.prems(1) by (simp add: ranked_def closed_def put_def)
    ultimately show "set_cell n c' w s1 \<noteq> OutOfFuel"
      using Suc.IH frame_ranked by blast
  next
    fix c' w s1 assume "c' \<in> A" "frame A ?p s1"
    moreover have "closed ?p A" using cl by (simp add: closed_def put_def)
    ultimately show "holds (frame A s1) (set_cell n c' w s1)"
      using set_cell_frame frame_closed by blast
  next
    show "frame A ?p ?p" by simp
  next
    show "\<forall>l\<in>set (subs s c). targets l \<subseteq> A \<and> targets l \<subseteq> {c' \<in> A. rank c' < n}"
      using Suc.prems by (fastforce simp: ranked_def closed_def)
  qed
  then show ?case by simp
qed











subsection \<open>The right spring stays attached to the left spring\<close>










section \<open>Writes to a spring on its own return\<close>

lemma andThen_fuelI:
  "r \<noteq> OutOfFuel \<Longrightarrow> (\<And>s1. r = Done s1 \<Longrightarrow> f s1 \<noteq> OutOfFuel) \<Longrightarrow> andThen r f \<noteq> OutOfFuel"
  by (cases r) simp_all

lemma set_cell_unchanged:
  "0 < n \<Longrightarrow> isValidValue s c v \<Longrightarrow> val s c = v \<Longrightarrow> set_cell n c v s = Done s"
  by (cases n) simp_all

lemma standalone_ranked:
  "standalone sp s \<Longrightarrow> ranked s (insert (SpringCell sp Left) (derived_cells sp)) anchor_rank"
  by (auto simp: ranked_def closed_def standalone_def derived_cells_def)

lemma derive_fuel:
  assumes st: "standalone sp s" and l: "targets l \<subseteq> derived_cells sp"
  shows "run_listener (set_cell (3 + n)) l v s \<noteq> OutOfFuel"
proof (rule run_listener_fuel [where A = "insert (SpringCell sp Left) (derived_cells sp)"])
  fix c w s1
  assume c: "c \<in> targets l"
    and fr: "frame (insert (SpringCell sp Left) (derived_cells sp)) s s1"
  have "ranked s1 (insert (SpringCell sp Left) (derived_cells sp)) anchor_rank"
    using frame_ranked [OF fr standalone_ranked [OF st]] .
  moreover have "c \<in> derived_cells sp" using c l by blast
  moreover from this have "anchor_rank c < 3 + n" by (auto simp: derived_cells_def)
  ultimately show "set_cell (3 + n) c w s1 \<noteq> OutOfFuel"
    using set_cell_ranked [of s1 "insert (SpringCell sp Left) (derived_cells sp)" anchor_rank c]
    by blast
next
  fix c w s1
  assume "c \<in> insert (SpringCell sp Left) (derived_cells sp)"
    and fr: "frame (insert (SpringCell sp Left) (derived_cells sp)) s s1"
  moreover have "closed s1 (insert (SpringCell sp Left) (derived_cells sp))"
    using frame_ranked [OF fr standalone_ranked [OF st]] by (simp add: ranked_def)
  ultimately show "holds (frame (insert (SpringCell sp Left) (derived_cells sp)) s1)
                     (set_cell (3 + n) c w s1)"
    by (intro set_cell_frame)
next
  show "targets l \<subseteq> insert (SpringCell sp Left) (derived_cells sp)" using l by blast
qed

lemma derive_frame:
  assumes st: "standalone sp s" and l: "targets l \<subseteq> derived_cells sp"
    and run: "run_listener (set_cell n) l v s = Done s1"
  shows "standalone sp s1" and "conf s1 = conf s"
    and "val s1 (F sp) = val s (F sp)" and "val s1 (K sp) = val s (K sp)"
    and "val s1 (X sp) = val s (X sp)"
proof -
  have "holds (frame (derived_cells sp) s) (run_listener (set_cell n) l v s)"
    by (rule run_listener_set_cell_frame [OF standalone_closed_derived [OF st] l])
  then have fr: "frame (derived_cells sp) s s1" using run by simp
  then show "standalone sp s1" using st frame_standalone by blast
  show "conf s1 = conf s" "val s1 (F sp) = val s (F sp)" "val s1 (K sp) = val s (K sp)"
    "val s1 (X sp) = val s (X sp)"
    using fr by (auto simp: frame_def derived_cells_def)
qed

lemma displacement_step:
  assumes st: "standalone sp s"
    and nest: "\<And>s3. quantize (conf s sp) (val s (K sp) * x) \<noteq> val s (F sp)
                 \<Longrightarrow> standalone sp s3 \<Longrightarrow> val s3 (K sp) = val s (K sp) \<Longrightarrow> conf s3 = conf s
                 \<Longrightarrow> val s3 (X sp) = x
                 \<Longrightarrow> set_cell (3 + n) (F sp) (quantize (conf s sp) (val s (K sp) * x)) s3
                     \<noteq> OutOfFuel"
  shows "set_cell (Suc (3 + n)) (X sp) x s \<noteq> OutOfFuel"
proof (cases "val s (X sp) = x")
  case True
  then show ?thesis by (subst set_cell.simps) (simp add: isValidValue_def del: set_cell.simps)
next
  case False
  let ?p = "put (X sp) x s"
  let ?f = "set_cell (3 + n)"
  have stp: "standalone sp ?p" using st by (simp add: standalone_def put_def)
  have vp: "conf ?p = conf s" "val ?p (F sp) = val s (F sp)" "val ?p (K sp) = val s (K sp)"
    "val ?p (X sp) = x"
    by (simp_all add: put_def)
  have eq: "set_cell (Suc (3 + n)) (X sp) x s
        = andThen (run_listener ?f (DeriveRight sp) x ?p)
            (\<lambda>s1. andThen (run_listener ?f (DeriveEnergy sp) x s1)
               (\<lambda>s2. run_listener ?f (DisplacementObserver sp) x s2))"
    using False st
    by (subst set_cell.simps)
       (simp add: isValidValue_def standalone_def andThen_def
             del: set_cell.simps run_listener.simps split: outcome.splits)
  show ?thesis
    unfolding eq
  proof (intro andThen_fuelI)
    show "run_listener ?f (DeriveRight sp) x ?p \<noteq> OutOfFuel"
      by (rule derive_fuel [OF stp]) (simp add: derived_cells_def)
  next
    fix s1 assume d1: "run_listener ?f (DeriveRight sp) x ?p = Done s1"
    note f1 = derive_frame [OF stp _ d1]
    have st1: "standalone sp s1" by (rule f1(1)) (simp add: derived_cells_def)
    show "run_listener ?f (DeriveEnergy sp) x s1 \<noteq> OutOfFuel"
      by (rule derive_fuel [OF st1]) (simp add: derived_cells_def)
  next
    fix s1 s2 assume d1: "run_listener ?f (DeriveRight sp) x ?p = Done s1"
      and d2: "run_listener ?f (DeriveEnergy sp) x s1 = Done s2"
    have t1: "targets (DeriveRight sp) \<subseteq> derived_cells sp"
      and t2: "targets (DeriveEnergy sp) \<subseteq> derived_cells sp"
      by (simp_all add: derived_cells_def)
    note f1 = derive_frame [OF stp t1 d1]
    note f2 = derive_frame [OF f1(1) t2 d2]
    have v2: "conf s2 = conf s" "val s2 (F sp) = val s (F sp)" "val s2 (K sp) = val s (K sp)"
      "val s2 (X sp) = x"
      using f1 f2 vp by simp_all
    show "run_listener ?f (DisplacementObserver sp) x s2 \<noteq> OutOfFuel"
    proof (cases "quantize (conf s sp) (val s (K sp) * x) = val s (F sp)")
      case True
      have "set_cell (3 + n) (F sp) (val s (F sp)) s2 = Done s2"
        using v2 by (intro set_cell_unchanged) (simp_all add: isValidValue_def)
      then show ?thesis using True v2
        by (simp add: DisplacementObserver_quantize del: run_listener.simps set_cell.simps)
    next
      case False
      from nest [OF False f2(1)] v2
      have "set_cell (3 + n) (F sp) (quantize (conf s sp) (val s (K sp) * x)) s2 \<noteq> OutOfFuel"
        by simp
      then show ?thesis using v2
        by (simp add: DisplacementObserver_quantize del: run_listener.simps set_cell.simps)
    qed
  qed
qed

lemma force_step:
  assumes st: "standalone sp s" and k: "val s (K sp) \<noteq> 0"
    and nest: "\<And>s3. quantize (conf s sp) v \<noteq> v
                 \<Longrightarrow> standalone sp s3 \<Longrightarrow> val s3 (K sp) = val s (K sp) \<Longrightarrow> conf s3 = conf s
                 \<Longrightarrow> set_cell (3 + n) (F sp) (quantize (conf s sp) v) s3 \<noteq> OutOfFuel"
  shows "set_cell (Suc (Suc (3 + n))) (F sp) v s \<noteq> OutOfFuel"
proof (cases "val s (F sp) = v")
  case True
  then show ?thesis by (subst set_cell.simps) (simp add: isValidValue_def del: set_cell.simps)
next
  case False
  let ?p = "put (F sp) v s"
  let ?f = "set_cell (Suc (3 + n))"
  have stp: "standalone sp ?p" using st by (simp add: standalone_def put_def)
  have vp: "conf ?p = conf s" "val ?p (F sp) = v" "val ?p (K sp) = val s (K sp)"
    by (simp_all add: put_def)
  have eq: "set_cell (Suc (Suc (3 + n))) (F sp) v s
        = andThen (run_listener ?f (DeriveSpringForce sp) v ?p)
            (\<lambda>s1. run_listener ?f (AppliedForceObserver sp) v s1)"
    using False st
    by (subst set_cell.simps)
       (simp add: isValidValue_def standalone_def andThen_def
             del: set_cell.simps run_listener.simps split: outcome.splits)
  have e3: "Suc (3 + n) = 3 + Suc n" by simp
  show ?thesis
    unfolding eq
  proof (intro andThen_fuelI)
    show "run_listener ?f (DeriveSpringForce sp) v ?p \<noteq> OutOfFuel"
      unfolding e3 by (rule derive_fuel [OF stp]) (simp add: derived_cells_def)
  next
    fix s1 assume d1: "run_listener ?f (DeriveSpringForce sp) v ?p = Done s1"
    have t1: "targets (DeriveSpringForce sp) \<subseteq> derived_cells sp"
      by (simp add: derived_cells_def)
    note f1 = derive_frame [OF stp t1 d1]
    have v1: "conf s1 = conf s" "val s1 (F sp) = v" "val s1 (K sp) = val s (K sp)"
      using f1 vp by simp_all
    have "set_cell (Suc (3 + n)) (X sp) (v / val s (K sp)) s1 \<noteq> OutOfFuel"
    proof (rule displacement_step [OF f1(1)])
      fix s3
      assume "quantize (conf s1 sp) (val s1 (K sp) * (v / val s (K sp))) \<noteq> val s1 (F sp)"
        and 3: "standalone sp s3" "val s3 (K sp) = val s1 (K sp)" "conf s3 = conf s1"
      then have "quantize (conf s sp) v \<noteq> v" using v1 k by simp
      from nest [OF this 3(1)] 3 v1 k
      show "set_cell (3 + n) (F sp)
              (quantize (conf s1 sp) (val s1 (K sp) * (v / val s (K sp)))) s3 \<noteq> OutOfFuel"
        by simp
    qed
    then show "run_listener ?f (AppliedForceObserver sp) v s1 \<noteq> OutOfFuel"
      using v1 by (simp del: set_cell.simps)
  qed
qed

lemma force_fuel:
  assumes st: "standalone sp s" and k: "val s (K sp) \<noteq> 0"
    and d: "0 < appliedForceDelta (conf s sp)"
  shows "set_cell (9 + m) (F sp) v s \<noteq> OutOfFuel"
proof -
  let ?q = "quantize (conf s sp)"
  have F0: "set_cell (Suc (Suc (3 + n))) (F sp) u t \<noteq> OutOfFuel"
    if "standalone sp t" "val t (K sp) \<noteq> 0" "conf t = conf s" "?q u = u" for u t n
    by (rule force_step [OF that(1,2)]) (use that in simp)
  have F1: "set_cell (Suc (Suc (3 + n))) (F sp) u t \<noteq> OutOfFuel"
    if t: "standalone sp t" "val t (K sp) \<noteq> 0" "conf t = conf s" and u: "?q (?q u) = ?q u"
      and n: "n = Suc (Suc n')" for u t n n'
  proof (rule force_step [OF t(1,2)])
    fix s3 assume "standalone sp s3" "val s3 (K sp) = val t (K sp)" "conf s3 = conf t"
    then have "set_cell (Suc (Suc (3 + n'))) (F sp) (?q u) s3 \<noteq> OutOfFuel"
      using F0 [of s3 "?q u" n'] t u by simp
    moreover have "3 + n = Suc (Suc (3 + n'))" using n by simp
    ultimately show "set_cell (3 + n) (F sp) (quantize (conf t sp) u) s3 \<noteq> OutOfFuel"
      using t(3) by (simp del: set_cell.simps)
  qed
  have "set_cell (Suc (Suc (3 + (4 + m)))) (F sp) v s \<noteq> OutOfFuel"
  proof (rule force_step [OF st k])
    fix s3 assume 3: "standalone sp s3" "val s3 (K sp) = val s (K sp)" "conf s3 = conf s"
    have "set_cell (Suc (Suc (3 + Suc (Suc m)))) (F sp) (?q v) s3 \<noteq> OutOfFuel"
      by (rule F1 [OF 3(1) _ 3(3) _ refl]) (use 3 k quantize_settles [OF d] in simp_all)
    moreover have "3 + (4 + m) = Suc (Suc (3 + Suc (Suc m)))" by simp
    ultimately show "set_cell (3 + (4 + m)) (F sp) (quantize (conf s sp) v) s3 \<noteq> OutOfFuel"
      by (simp del: set_cell.simps)
  qed
  moreover have "Suc (Suc (3 + (4 + m))) = 9 + m" by simp
  ultimately show ?thesis by (simp del: set_cell.simps)
qed









section \<open>The constructor leaves a spring settled\<close>

lemma create_simps:
  "conf (create c v s) = conf s"
  "val (create c v s) c' = (if c' = c then v else val s c')"
  "initialValue (create c v s) c' = (if c' = c then v else initialValue s c')"
  "subs (create c v s) c' = (if c' = c then [] else subs s c')"
  "rightRange (create c v s) = rightRange s"
  by (simp_all add: create_def)

lemma lazyLink_simps:
  "conf (lazyLink c l s) = conf s"
  "val (lazyLink c l s) = val s"
  "initialValue (lazyLink c l s) = initialValue s"
  "subs (lazyLink c l s) c' = (if c' = c then subs s c @ [l] else subs s c')"
  "rightRange (lazyLink c l s) = rightRange s"
  by (simp_all add: lazyLink_def)

lemma spring_cells_conf:
  "conf (spring_cells sp c l s0) sp = c"
  by (simp add: spring_cells_def Let_def create_simps lazyLink_simps)

lemma spring_cells_val:
  "val (spring_cells sp c l s0) (F sp) = defaultValue (appliedForceRange c)"
  "val (spring_cells sp c l s0) (K sp) = defaultValue (springConstantRange c)"
  "val (spring_cells sp c l s0) (X sp) = defaultValue (displacementRange c)"
  by (simp_all add: spring_cells_def Let_def create_simps lazyLink_simps)


lemma spring_cells_subs:
  "subs (spring_cells sp c l s0) (F sp) = [DeriveSpringForce sp]"
  "subs (spring_cells sp c l s0) (K sp)
     = (if forceDriven c then [DeriveRightRange sp, DeriveEnergy sp] else [DeriveEnergy sp])"
  "subs (spring_cells sp c l s0) (X sp) = [DeriveRight sp, DeriveEnergy sp]"
  "subs (spring_cells sp c l s0) (SpringCell sp Left) = [DeriveEquilibriumX sp, DeriveLength sp]"
  "subs (spring_cells sp c l s0) (SpringCell sp EquilibriumX)
     = [DeriveRight sp, DeriveRightRange sp]"
  "subs (spring_cells sp c l s0) (SpringCell sp Right) = [DeriveLength sp]"
  "subs (spring_cells sp c l s0) (SpringCell sp SpringForce) = []"
  "subs (spring_cells sp c l s0) (SpringCell sp Length) = []"
  "subs (spring_cells sp c l s0) (SpringCell sp Energy) = []"
  by (simp_all add: spring_cells_def Let_def create_simps lazyLink_simps)


text \<open>The constructor returns: it ends, with a spring or with a failed assertion.\<close>

lemma sequence3:
  "sequence [a, b, c] s = andThen (a s) (\<lambda>s1. andThen (b s1) (\<lambda>s2. c s2))"
  by (simp add: andThen_def split: outcome.splits)

lemma links_return:
  assumes kpos: "0 < rmin (springConstantRange c)" and dpos: "0 < appliedForceDelta c"
    and rel: "forceDriven c \<longrightarrow> defaultValue (displacementRange c)
                = defaultValue (appliedForceRange c) / defaultValue (springConstantRange c)"
      "\<not> forceDriven c \<longrightarrow> defaultValue (appliedForceRange c)
                = defaultValue (springConstantRange c) * defaultValue (displacementRange c)"
  shows "sequence [link (9 + m) (F sp) (AppliedForceObserver sp),
                   link (9 + m) (K sp) (SpringConstantObserver sp),
                   link (9 + m) (X sp) (DisplacementObserver sp)] (spring_cells sp c l s0)
         \<noteq> OutOfFuel"
proof -
  define F0 where "F0 = defaultValue (appliedForceRange c)"
  define k0 where "k0 = defaultValue (springConstantRange c)"
  define x0 where "x0 = defaultValue (displacementRange c)"
  define a where "a = spring_cells sp c l s0"
  have a: "conf a sp = c" "val a (F sp) = F0" "val a (K sp) = k0" "val a (X sp) = x0"
    by (simp_all add: a_def F0_def k0_def x0_def spring_cells_conf spring_cells_val)
  note sa = spring_cells_subs [of sp c l s0, folded a_def]
  define a1 where "a1 = lazyLink (F sp) (AppliedForceObserver sp) a"
  have a1: "conf a1 = conf a" "val a1 = val a"
    "subs a1 (F sp) = [DeriveSpringForce sp, AppliedForceObserver sp]"
    "\<And>f. f \<noteq> AppliedForce \<Longrightarrow> subs a1 (SpringCell sp f) = subs a (SpringCell sp f)"
    by (simp_all add: a1_def lazyLink_simps sa)
  define A where "A = insert (X sp) (insert (SpringCell sp Left) (derived_cells sp))"
  define rank where "rank = (\<lambda>c. if c = X sp then 3 else anchor_rank c)"
  have rk: "ranked a1 A rank"
    by (auto simp: ranked_def closed_def A_def rank_def derived_cells_def a1 sa)
  have f1: "set_cell (9 + m) (X sp) v a1 \<noteq> OutOfFuel" for v
    by (rule set_cell_ranked [OF rk]) (simp_all add: A_def rank_def)
  have cl1: "closed a1 (moving_cells sp)"
    by (auto simp: closed_def moving_cells_def a1 sa)
  have "andThen (link (9 + m) (F sp) (AppliedForceObserver sp) a)
          (\<lambda>s1. andThen (link (9 + m) (K sp) (SpringConstantObserver sp) s1)
             (\<lambda>s2. link (9 + m) (X sp) (DisplacementObserver sp) s2)) \<noteq> OutOfFuel"
  proof (intro andThen_fuelI)
    show "link (9 + m) (F sp) (AppliedForceObserver sp) a \<noteq> OutOfFuel"
      using f1 by (simp add: link_def a1_def [symmetric] a a1)
  next
    fix b assume l1: "link (9 + m) (F sp) (AppliedForceObserver sp) a = Done b"
    have w1: "set_cell (9 + m) (X sp) (F0 / k0) a1 = Done b"
      using l1 by (auto simp: link_def a1_def [symmetric] a a1 split: if_splits)
    have "holds (frame (moving_cells sp) a1) (set_cell (9 + m) (X sp) (F0 / k0) a1)"
      by (rule set_cell_frame [OF cl1]) (simp add: moving_cells_def)
    then have fb: "frame (moving_cells sp) a1 b" using w1 by simp
    have b: "conf b sp = c" "val b (K sp) = k0"
      using fb by (auto simp: frame_def moving_cells_def a a1)
    show "link (9 + m) (K sp) (SpringConstantObserver sp) b \<noteq> OutOfFuel"
    proof (cases "contains (springConstantRange c) k0")
      case False
      then show ?thesis by (simp add: link_def lazyLink_simps b)
    next
      case True
      then have k0pos: "0 < k0" using kpos by (simp add: contains_def)
      have xq: "F0 / k0 = x0" "k0 * x0 = F0"
      proof -
        show "k0 * x0 = F0"
        proof (cases "forceDriven c")
          case True
          then have "x0 = F0 / k0" using rel(1) by (simp add: F0_def k0_def x0_def)
          then show ?thesis using k0pos by simp
        next
          case False
          then show ?thesis using rel(2) by (simp add: F0_def k0_def x0_def)
        qed
        then have "F0 / k0 = k0 * x0 / k0" by simp
        then show "F0 / k0 = x0" using k0pos by simp
      qed
      have b_eq: "b = a1" using set_cell_same [OF w1] by (simp add: a1 a xq)
      define b1 where "b1 = lazyLink (K sp) (SpringConstantObserver sp) a1"
      have b1: "conf b1 = conf a" "val b1 = val a"
        by (simp_all add: b1_def lazyLink_simps a1)
      have "set_cell (9 + m) (if forceDriven c then X sp else F sp)
              (if forceDriven c then F0 / k0 else k0 * x0) b1 = Done b1"
        by (rule set_cell_unchanged) (simp_all add: isValidValue_def b1 a xq)
      then show ?thesis
        unfolding b_eq
        by (auto simp: link_def b1_def [symmetric] a a1 b1 True simp del: set_cell.simps)
    qed
  next
    fix b d assume l1: "link (9 + m) (F sp) (AppliedForceObserver sp) a = Done b"
      and l2: "link (9 + m) (K sp) (SpringConstantObserver sp) b = Done d"
    have w1: "set_cell (9 + m) (X sp) (F0 / k0) a1 = Done b"
      using l1 by (auto simp: link_def a1_def [symmetric] a a1 split: if_splits)
    have "holds (frame (moving_cells sp) a1) (set_cell (9 + m) (X sp) (F0 / k0) a1)"
      by (rule set_cell_frame [OF cl1]) (simp add: moving_cells_def)
    then have fb: "frame (moving_cells sp) a1 b" using w1 by simp
    have b: "conf b sp = c" "val b (K sp) = k0"
      using fb by (auto simp: frame_def moving_cells_def a a1)
    have ck: "contains (springConstantRange c) k0"
      using l2 by (auto simp: link_def lazyLink_simps b split: if_splits)
    then have k0pos: "0 < k0" using kpos by (simp add: contains_def)
    have xq: "F0 / k0 = x0" "k0 * x0 = F0"
    proof -
      show "k0 * x0 = F0"
      proof (cases "forceDriven c")
        case True
        then have "x0 = F0 / k0" using rel(1) by (simp add: F0_def k0_def x0_def)
        then show ?thesis using k0pos by simp
      next
        case False
        then show ?thesis using rel(2) by (simp add: F0_def k0_def x0_def)
      qed
      then have "F0 / k0 = k0 * x0 / k0" by simp
      then show "F0 / k0 = x0" using k0pos by simp
    qed
    have b_eq: "b = a1" using set_cell_same [OF w1] by (simp add: a1 a xq)
    define b1 where "b1 = lazyLink (K sp) (SpringConstantObserver sp) a1"
    have b1: "conf b1 = conf a" "val b1 = val a"
      "subs b1 (F sp) = [DeriveSpringForce sp, AppliedForceObserver sp]"
      "subs b1 (K sp) = (if forceDriven c
         then [DeriveRightRange sp, DeriveEnergy sp, SpringConstantObserver sp]
         else [DeriveEnergy sp, SpringConstantObserver sp])"
      "\<And>f. f \<noteq> AppliedForce \<Longrightarrow> f \<noteq> SpringConstant
         \<Longrightarrow> subs b1 (SpringCell sp f) = subs a (SpringCell sp f)"
      by (simp_all add: b1_def lazyLink_simps a1 sa)
    have w2: "set_cell (9 + m) (if forceDriven c then X sp else F sp)
                (if forceDriven c then F0 / k0 else k0 * x0) b1 = Done d"
      using l2 unfolding b_eq
      by (auto simp: link_def b1_def [symmetric] a a1 b1 split: if_splits)
    have d_eq: "d = b1"
      using set_cell_same [OF w2] by (simp add: b1 a xq)
    define d1 where "d1 = lazyLink (X sp) (DisplacementObserver sp) b1"
    have d1: "conf d1 = conf a" "val d1 = val a"
      by (simp_all add: d1_def lazyLink_simps b1)
    have st: "standalone sp d1"
      by (simp add: standalone_def d1_def lazyLink_simps b1 sa a)
    have "set_cell (9 + m) (F sp) v d1 \<noteq> OutOfFuel" for v
      by (rule force_fuel [OF st]) (use k0pos dpos in \<open>simp_all add: d1 a\<close>)
    then show "link (9 + m) (X sp) (DisplacementObserver sp) d \<noteq> OutOfFuel"
      unfolding d_eq
      by (simp add: link_def d1_def [symmetric] DisplacementObserver_quantize
            del: run_listener.simps set_cell.simps)
  qed
  then show ?thesis unfolding sequence3 a_def .
qed

lemma Spring_returns: "Spring (9 + m) sp opts s0 \<noteq> OutOfFuel"
proof -
  define c where "c = make_conf opts"
  have cf: "rmin (springConstantRange c) = rmin (opt_springConstantRange opts)"
    "appliedForceDelta c = opt_appliedForceDelta opts"
    by (simp_all add: c_def make_conf_def Let_def split: option.splits)
  have rel: "forceDriven c \<longrightarrow> defaultValue (displacementRange c)
                = defaultValue (appliedForceRange c) / defaultValue (springConstantRange c)"
      "\<not> forceDriven c \<longrightarrow> defaultValue (appliedForceRange c)
                = defaultValue (springConstantRange c) * defaultValue (displacementRange c)"
    by (simp_all add: c_def make_conf_def Let_def RangeWithValue_def split: option.splits)
  have "sequence [link (9 + m) (F sp) (AppliedForceObserver sp),
                   link (9 + m) (K sp) (SpringConstantObserver sp),
                   link (9 + m) (X sp) (DisplacementObserver sp)] (spring_cells sp c l s0)
         \<noteq> OutOfFuel"
    if "0 < rmin (opt_springConstantRange opts)" "0 < opt_appliedForceDelta opts" for l
    by (rule links_return [OF _ _ rel]) (use that cf in simp_all)
  then show ?thesis
    by (simp add: Spring_def Let_def c_def [symmetric] del: sequence.simps
          split: option.splits)
qed

section \<open>States the constructor and external writes lead to\<close>







section \<open>The claims\<close>


text \<open>
  C3. A force-driven spring with spring constant range [100, 1000] at 200, applied force
  range [-10, 10] at 0, equilibrium length 1.5 and left end 0: setting the applied force
  to 10 gives displacement 0.05 and right end 1.55; setting the spring constant to 500
  then gives displacement 0.02, the applied force still 10.
\<close>

theorem scenario_force_then_constant:
  "returns (Spring 10 SingleSpring scenario_options empty_system)
   \<and> value_of scenario_force_10 (X SingleSpring) = Some 0.05
   \<and> value_of scenario_force_10 (SpringCell SingleSpring Right) = Some 1.55
   \<and> value_of scenario_constant_500 (X SingleSpring) = Some 0.02
   \<and> value_of scenario_constant_500 (F SingleSpring) = Some 10"
  by code_simp











text \<open>
  C9. For a robotic arm with the fixed right end \<open>armRight\<close>, a \<^verbatim>\<open>set(v)\<close> on its left
  cell fails with the validity error exactly when \<open>v < armRight\<close> does not hold, and then
  leaves the state as it was; otherwise it returns and the cell holds \<open>v\<close>, so a read
  gives the last accepted value.
\<close>

theorem arm_left_set:
  assumes "subs s ArmLeft = []"
  shows "(\<not> v < armRight s \<longrightarrow> set_external (Suc n) ArmLeft v s = Raised InvalidValueError s)
     \<and> (v < armRight s \<longrightarrow>
          (\<exists>s'. set_external (Suc n) ArmLeft v s = Done s' \<and> val s' ArmLeft = v
                \<and> armRight s' = armRight s \<and> subs s' ArmLeft = []))"
  using assms by (auto simp: set_external_def isValidValue_def put_def derived_def)

theorem arm_left_set_witness:
  "subs default_arm ArmLeft = []
   \<and> \<not> 1 < armRight default_arm
   \<and> set_external (Suc 0) ArmLeft 1 default_arm = Raised InvalidValueError default_arm
   \<and> 1 / 2 < armRight default_arm
   \<and> (\<exists>s'. set_external (Suc 0) ArmLeft (1 / 2) default_arm = Done s'
           \<and> val s' ArmLeft = 1 / 2)"
proof -
  have a: "subs default_arm ArmLeft = []" by code_simp
  have b: "\<not> 1 < armRight default_arm" by code_simp
  have c: "1 / 2 < armRight default_arm" by code_simp
  from arm_left_set [OF a, of 1 0] arm_left_set [OF a, of "1 / 2" 0] a b c
  show ?thesis by auto
qed

section \<open>The claims on the series system\<close>

text \<open>
  The constructor as written gives the equivalent spring the left end
  \<^verbatim>\<open>this.leftSpring.left\<close>, which is undefined, and the assertion of its
  \<^verbatim>\<open>rightProperty\<close> fails: no series system is constructed. The theorems below are
  about the system built with that left end given as 0, the left end of the left spring.
\<close>

lemma SeriesSystem_as_written_raises: "raises (SeriesSystem 10)"
  by code_simp

lemma series_system_constructed:
  "returns (SeriesSystem_with (Some 0) 10) \<and> wired series_system \<and> changes series_system = []"
  by code_simp













end
